theory Spec2Isabelle
  imports
    Main
    "HOL-Library.Sublist"
    "HOL-Library.Multiset"
    "HOL-Library.Char_ord"
    "HOL-Library.List_Lexorder"
    "HOL-Library.Product_Lexorder"
begin

section \<open>mdtree: the tree builder of \<open>src/mdtree/treebuilder.py\<close>\<close>

text \<open>
  Python text is modelled as \<^typ>\<open>string\<close>. The three box-drawing glyphs of the renderer
  are written as their UTF-8 bytes; every other character the development gives a
  meaning to is ASCII. \<^verbatim>\<open>str.lower\<close>, \<^verbatim>\<open>str.strip\<close> and
  \<^verbatim>\<open>str.splitlines\<close> are modelled on ASCII: on text outside ASCII the order of
  sibling names and the lines read from \<^verbatim>\<open>.gitignore\<close> can differ from those of the
  code, which matters to none of the properties stated below.
\<close>

subsection \<open>String helpers of the Python runtime\<close>

definition startswith :: "string \<Rightarrow> string \<Rightarrow> bool" where
  "startswith s pre = prefix pre s"

definition endswith :: "string \<Rightarrow> string \<Rightarrow> bool" where
  "endswith s suf = suffix suf s"

text \<open>\<^verbatim>\<open>s.rstrip("/")\<close>: every trailing slash is removed.\<close>

definition rstrip_slash :: "string \<Rightarrow> string" where
  "rstrip_slash s = rev (dropWhile (\<lambda>c. c = CHR ''/'') (rev s))"

text \<open>\<^verbatim>\<open>sep.join(xs)\<close>.\<close>

fun join :: "string \<Rightarrow> string list \<Rightarrow> string" where
  "join sep [] = []"
| "join sep [x] = x"
| "join sep (x # y # ys) = x @ sep @ join sep (y # ys)"

text \<open>\<^verbatim>\<open>str.strip()\<close> on ASCII text: the ASCII white space is tab, line feed, vertical
  tab, form feed, carriage return, the four separators 0x1C..0x1F and the blank.\<close>

definition is_space :: "char \<Rightarrow> bool" where
  "is_space c = (let n = (of_char c :: nat) in (9 \<le> n \<and> n \<le> 13) \<or> (28 \<le> n \<and> n \<le> 32))"

definition strip :: "string \<Rightarrow> string" where
  "strip s = rev (dropWhile is_space (rev (dropWhile is_space s)))"

text \<open>\<^verbatim>\<open>str.splitlines()\<close> on ASCII text: a line ends at line feed, carriage return
  (one boundary together with a following line feed), vertical tab, form feed and the
  separators 0x1C..0x1E; there is no empty last line.\<close>

definition is_linebreak :: "char \<Rightarrow> bool" where
  "is_linebreak c = (let n = (of_char c :: nat) in (10 \<le> n \<and> n \<le> 13) \<or> (28 \<le> n \<and> n \<le> 30))"

fun splitlines_from :: "string \<Rightarrow> string \<Rightarrow> string list" where
  "splitlines_from cur [] = (if cur = [] then [] else [cur])"
| "splitlines_from cur [c] = (if is_linebreak c then [cur] else [cur @ [c]])"
| "splitlines_from cur (c # d # cs) =
     (if c = char_of (13::nat) \<and> d = char_of (10::nat) then cur # splitlines_from [] cs
      else if is_linebreak c then cur # splitlines_from [] (d # cs)
      else splitlines_from (cur @ [c]) (d # cs))"

definition splitlines :: "string \<Rightarrow> string list" where
  "splitlines s = splitlines_from [] s"

text \<open>\<^verbatim>\<open>str.lower()\<close> on ASCII text.\<close>

definition lower_char :: "char \<Rightarrow> char" where
  "lower_char c = (let n = (of_char c :: nat) in if 65 \<le> n \<and> n \<le> 90 then char_of (n + 32) else c)"

definition lower :: "string \<Rightarrow> string" where
  "lower s = map lower_char s"

subsection \<open>Errors\<close>

datatype error =
    ValueError string
  | NotADirectoryError
  | FileNotFoundError
  | IsADirectoryError
  | PatternError string
  | UnicodeEncodeError
  | OSError nat

subsection \<open>The standard output\<close>

text \<open>
  \<^verbatim>\<open>print(line)\<close> writes to the standard output, whose encoder is the parameter
  \<open>encodable\<close>: a text the stream cannot encode raises \<^verbatim>\<open>UnicodeEncodeError\<close> and
  nothing more is written. The output is the list of the lines written so far.
\<close>

definition py_print :: "(string \<Rightarrow> bool) \<Rightarrow> string \<Rightarrow> string list \<Rightarrow> error + string list" where
  "py_print encodable line out = (if encodable line then Inr (out @ [line]) else Inl UnicodeEncodeError)"

fun print_all :: "(string \<Rightarrow> bool) \<Rightarrow> string list \<Rightarrow> string list \<Rightarrow> error + string list" where
  "print_all encodable [] out = Inr out"
| "print_all encodable (line # lines) out =
     (case py_print encodable line out of
        Inl e \<Rightarrow> Inl e
      | Inr out' \<Rightarrow> print_all encodable lines out')"

subsection \<open>The file system under the resolved root\<close>

text \<open>
  A snapshot of the directory tree: a file with its name and text, or a directory with its
  name and its entries in the order the operating system lists them. A \<^verbatim>\<open>Path\<close> below
  the root is the list of its components relative to the root, the root itself the
  empty list; \<^verbatim>\<open>is_dir\<close>, \<^verbatim>\<open>exists\<close>, \<^verbatim>\<open>iterdir\<close> and
  \<^verbatim>\<open>read_text\<close> look the path up in the snapshot. The snapshot is a finite tree that
  does not change during a run: symbolic links, permissions and undecodable text are outside
  the model, and of the errors of the file system only the three of
  \<^verbatim>\<open>iterdir\<close> and \<^verbatim>\<open>read_text\<close> on a missing path, a file or a directory
  occur. Should a directory list a name twice, the path denotes the first entry.
\<close>

datatype node = File string string | Dir string "node list"

type_synonym path = "string list"

fun node_name :: "node \<Rightarrow> string" where
  "node_name (File n t) = n"
| "node_name (Dir n kids) = n"

fun lookup :: "node \<Rightarrow> path \<Rightarrow> node option" where
  "lookup n [] = Some n"
| "lookup (File n t) (c # cs) = None"
| "lookup (Dir n kids) (c # cs) =
     (case find (\<lambda>k. node_name k = c) kids of None \<Rightarrow> None | Some k \<Rightarrow> lookup k cs)"

definition exists_path :: "node \<Rightarrow> path \<Rightarrow> bool" where
  "exists_path fs p = (lookup fs p \<noteq> None)"

definition is_dir :: "node \<Rightarrow> path \<Rightarrow> bool" where
  "is_dir fs p = (case lookup fs p of Some (Dir n kids) \<Rightarrow> True | _ \<Rightarrow> False)"

definition iterdir :: "node \<Rightarrow> path \<Rightarrow> error + path list" where
  "iterdir fs p =
     (case lookup fs p of
        None \<Rightarrow> Inl FileNotFoundError
      | Some (File n t) \<Rightarrow> Inl NotADirectoryError
      | Some (Dir n kids) \<Rightarrow> Inr (map (\<lambda>k. p @ [node_name k]) kids))"

definition read_text :: "node \<Rightarrow> path \<Rightarrow> error + string" where
  "read_text fs p =
     (case lookup fs p of
        None \<Rightarrow> Inl FileNotFoundError
      | Some (File n t) \<Rightarrow> Inr t
      | Some (Dir n kids) \<Rightarrow> Inl IsADirectoryError)"

text \<open>\<^verbatim>\<open>p.name\<close>: the last component; the root carries its own name.\<close>

definition path_name :: "node \<Rightarrow> path \<Rightarrow> string" where
  "path_name fs p = (if p = [] then node_name fs else last p)"

text \<open>\<^verbatim>\<open>p.relative_to(root_path).as_posix()\<close>: the root itself is \<^verbatim>\<open>"."\<close>.\<close>

definition as_posix :: "path \<Rightarrow> string" where
  "as_posix p = (if p = [] then ''.'' else join ''/'' p)"

text \<open>The sort key \<^verbatim>\<open>(not x.is_dir(), x.name.lower())\<close> of both directory listings.\<close>

definition sort_children :: "node \<Rightarrow> path list \<Rightarrow> path list" where
  "sort_children fs ps = sort_key (\<lambda>x. (\<not> is_dir fs x, lower (path_name fs x))) ps"

subsection \<open>Reading and compiling the rules\<close>

definition read_gitignore_lines :: "node \<Rightarrow> error + string list" where
  "read_gitignore_lines fs =
     (let gi = [''.gitignore''] in
      if \<not> exists_path fs gi then Inr []
      else case read_text fs gi of
             Inl e \<Rightarrow> Inl e
           | Inr text \<Rightarrow>
               Inr (filter (\<lambda>line. \<not> (line = [] \<or> startswith line ''#''))
                      (map strip (splitlines text))))"

text \<open>
  The pattern library \<^verbatim>\<open>pathspec\<close> is not part of the repository. It enters as the
  parameter \<open>from_lines\<close>: the gitwildmatch compilation of one line, which either
  rejects the line or gives the predicate \<^verbatim>\<open>spec.match_file\<close> on relative paths.
\<close>

type_synonym pathspec = "string \<Rightarrow> bool"

type_synonym rule = "bool \<times> pathspec \<times> string"

fun compile_gitignore_rules :: "(string \<Rightarrow> error + pathspec) \<Rightarrow> string list \<Rightarrow> error + rule list" where
  "compile_gitignore_rules from_lines [] = Inr []"
| "compile_gitignore_rules from_lines (pat # patterns) =
     (let is_neg = startswith pat ''!'';
          core = (if is_neg then tl pat else pat)
      in if core = [] then compile_gitignore_rules from_lines patterns
         else case from_lines core of
                Inl e \<Rightarrow> Inl e
              | Inr spec \<Rightarrow>
                  (case compile_gitignore_rules from_lines patterns of
                     Inl e \<Rightarrow> Inl e
                   | Inr rules \<Rightarrow> Inr ((is_neg, spec, pat) # rules)))"

definition rel_for_match :: "node \<Rightarrow> path \<Rightarrow> string list" where
  "rel_for_match fs p =
     (let rel = as_posix p in
      if is_dir fs p then [rel, (if rel \<noteq> [] \<and> \<not> endswith rel ''/'' then rel @ ''/'' else rel)]
      else [rel])"

subsection \<open>The resolver\<close>

text \<open>One round of the loop over the rules in \<^verbatim>\<open>is_ignored\<close>: the verdict so far and
  the hits so far go in, the updated pair comes out.\<close>

type_synonym hit = "string \<times> string \<times> string"

definition rule_step :: "node \<Rightarrow> path \<Rightarrow> string \<Rightarrow> rule \<Rightarrow> bool \<times> hit list \<Rightarrow> bool \<times> hit list" where
  "rule_step fs p rel r acc =
     (case r of (is_neg, spec, pat) \<Rightarrow> case acc of (state_ignore, hits) \<Rightarrow>
      let core = (if startswith pat ''!'' then tl pat else pat) in
      if endswith core ''/'' then
        (let dir_pat = rstrip_slash core in
         if \<not> is_neg then
           (if rel = dir_pat \<or> startswith rel (dir_pat @ ''/'')
            then (True, hits @ [(pat, rel, ''EXCLUDE (dir and descendants)'')])
            else (state_ignore, hits))
         else
           (if is_dir fs p \<and> rel = dir_pat
            then (False, hits @ [(pat, rel, ''INCLUDE (unignore dir)'')])
            else (state_ignore, hits)))
      else if spec rel then
        (\<not> is_neg, hits @ [(pat, rel, if \<not> is_neg then ''EXCLUDE'' else ''INCLUDE (unignore)'')])
      else (state_ignore, hits))"

fun scan_rules :: "node \<Rightarrow> path \<Rightarrow> string \<Rightarrow> rule list \<Rightarrow> bool \<times> hit list \<Rightarrow> bool \<times> hit list" where
  "scan_rules fs p rel [] acc = acc"
| "scan_rules fs p rel (r # rules) acc = scan_rules fs p rel rules (rule_step fs p rel r acc)"

text \<open>The trace printed under \<^verbatim>\<open>DEBUG\<close>, one string per \<^verbatim>\<open>print\<close>; \<open>repr\<close> is
  Python's \<^verbatim>\<open>repr\<close> on strings.\<close>

definition debug_lines :: "(string \<Rightarrow> string) \<Rightarrow> node \<Rightarrow> path \<Rightarrow> bool \<Rightarrow> hit list \<Rightarrow> string list" where
  "debug_lines repr fs p state_ignore hits =
     (let kind = (if is_dir fs p then ''DIR '' else ''FILE'') in
      [''['' @ kind @ ''] '' @ (if as_posix p = [] then ''.'' else as_posix p)] @
      (if hits \<noteq> [] then
         map (\<lambda>(pat, rel, eff). ''   -> match: '' @ repr pat @ '' on '' @ repr rel @ '' => '' @ eff) hits @
         [''   => FINAL: '' @ (if state_ignore then ''IGNORED'' else ''INCLUDED'')]
       else [''   -> no match'']))"

text \<open>\<^verbatim>\<open>is_ignored(p)\<close> in two parts. \<open>is_ignored\<close> is the verdict of lines 97 to 124
  together with the lines that the block under \<^verbatim>\<open>DEBUG\<close> passes to
  \<^verbatim>\<open>print\<close>, in order. \<open>run_is_ignored\<close> is the call as it runs: it writes those
  lines and then returns the verdict, and a line the stream cannot encode raises out of the
  call before any verdict is returned.\<close>

definition is_ignored ::
  "(string \<Rightarrow> string) \<Rightarrow> rule list \<Rightarrow> node \<Rightarrow> bool \<Rightarrow> path \<Rightarrow> bool \<times> string list" where
  "is_ignored repr rules fs DEBUG p =
     (let rel = as_posix p;
          (state_ignore, hits) = scan_rules fs p rel rules (False, [])
      in (state_ignore, if DEBUG then debug_lines repr fs p state_ignore hits else []))"

definition run_is_ignored ::
  "(string \<Rightarrow> bool) \<Rightarrow> (string \<Rightarrow> string) \<Rightarrow> rule list \<Rightarrow> node \<Rightarrow> bool \<Rightarrow> path \<Rightarrow> string list
     \<Rightarrow> error + (bool \<times> string list)" where
  "run_is_ignored encodable repr rules fs DEBUG p out =
     (case is_ignored repr rules fs DEBUG p of (state_ignore, lines) \<Rightarrow>
      case print_all encodable lines out of
        Inl e \<Rightarrow> Inl e
      | Inr out' \<Rightarrow> Inr (state_ignore, out'))"

subsection \<open>The traversal\<close>

text \<open>\<^verbatim>\<open>max_depth is not None and depth >= max_depth\<close>.\<close>

definition depth_reached :: "int option \<Rightarrow> int \<Rightarrow> bool" where
  "depth_reached max_depth depth = (case max_depth of None \<Rightarrow> False | Some m \<Rightarrow> depth \<ge> m)"

text \<open>The stack of the traversal has its top at the head: the sorted directories are
  pushed one after the other, so the last of them is popped first.\<close>

definition push_dirs :: "node \<Rightarrow> int \<Rightarrow> path list \<Rightarrow> (path \<times> int) list \<Rightarrow> (path \<times> int) list" where
  "push_dirs fs depth chs stack = rev (map (\<lambda>ch. (ch, depth + 1)) (filter (is_dir fs) chs)) @ stack"

text \<open>The height of the tree below a path bounds how far the traversal and the renderer
  can descend from it.\<close>

fun height :: "node \<Rightarrow> nat" where
  "height (File n t) = 0"
| "height (Dir n kids) = Suc (Max (insert 0 (set (map height kids))))"

definition path_height :: "node \<Rightarrow> path \<Rightarrow> nat" where
  "path_height fs p = (case lookup fs p of None \<Rightarrow> 0 | Some n \<Rightarrow> height n)"

lemma lookup_append:
  "lookup fs (p @ [c]) =
     (case lookup fs p of
        Some (Dir n kids) \<Rightarrow> find (\<lambda>k. node_name k = c) kids
      | _ \<Rightarrow> None)"
proof (induction fs p rule: lookup.induct)
  case (1 n)
  then show ?case by (cases n) (auto split: option.splits)
next
  case (2 n t c cs)
  then show ?case by simp
next
  case (3 n kids c cs)
  then show ?case by (auto split: option.splits)
qed

lemma find_in_set: "find P xs = Some x \<Longrightarrow> x \<in> set xs"
  by (induction xs) (auto split: if_splits)

lemma height_kid: "k \<in> set kids \<Longrightarrow> height k < height (Dir n kids)"
proof -
  assume "k \<in> set kids"
  then have "height k \<in> insert 0 (set (map height kids))" by simp
  then have "height k \<le> Max (insert 0 (set (map height kids)))"
    by (intro Max_ge) auto
  then show ?thesis by simp
qed

lemma iterdir_height:
  assumes "iterdir fs p = Inr chs" and "ch \<in> set chs"
  shows "path_height fs ch < path_height fs p"
proof -
  from assms(1) obtain n kids where l: "lookup fs p = Some (Dir n kids)"
    and chs: "chs = map (\<lambda>k. p @ [node_name k]) kids"
    by (auto simp: iterdir_def split: option.splits node.splits)
  from assms(2) chs obtain k where k: "k \<in> set kids" and ch: "ch = p @ [node_name k]"
    by auto
  from k obtain k' where f: "find (\<lambda>x. node_name x = node_name k) kids = Some k'"
    by (cases "find (\<lambda>x. node_name x = node_name k) kids") (auto simp: find_None_iff)
  then have "k' \<in> set kids" by (rule find_in_set)
  then have "height k' < height (Dir n kids)" by (rule height_kid)
  with l f ch show ?thesis by (simp add: path_height_def lookup_append)
qed

lemma set_sort_children: "set (sort_children fs ps) = set ps"
  by (simp add: sort_children_def)

function walk :: "node \<Rightarrow> int option \<Rightarrow> (path \<times> int) list \<Rightarrow> path list \<Rightarrow> error + path list" where
  "walk fs max_depth [] all_paths = Inr all_paths"
| "walk fs max_depth ((cur, depth) # stack) all_paths =
     (if depth_reached max_depth depth then walk fs max_depth stack all_paths
      else case iterdir fs cur of
             Inl e \<Rightarrow> Inl e
           | Inr chs \<Rightarrow>
               walk fs max_depth (push_dirs fs depth (sort_children fs chs) stack)
                 (all_paths @ sort_children fs chs))"
  by pat_completeness auto
termination
proof (relation "inv_image (mult {(a::nat, b). a < b})
         (\<lambda>(fs, max_depth, stack, all_paths). mset (map (\<lambda>(p, d). path_height fs p) stack))")
  show "wf (inv_image (mult {(a::nat, b). a < b})
         (\<lambda>(fs, max_depth, stack, all_paths). mset (map (\<lambda>(p, d). path_height fs p) stack)))"
    by (intro wf_inv_image wf_mult) (simp add: wf_less[unfolded less_than_def[symmetric]] flip: less_than_def)
next
  fix fs :: node and max_depth :: "int option" and cur :: path and depth :: int
    and stack :: "(path \<times> int) list" and all_paths :: "path list"
  let ?I = "mset (map (\<lambda>(p, d). path_height fs p) stack)"
  have "(?I + {#}, ?I + {#path_height fs cur#}) \<in> mult {(a::nat, b). a < b}"
    by (rule one_step_implies_mult) auto
  then show "((fs, max_depth, stack, all_paths), (fs, max_depth, (cur, depth) # stack, all_paths))
      \<in> inv_image (mult {(a::nat, b). a < b})
         (\<lambda>(fs, max_depth, stack, all_paths). mset (map (\<lambda>(p, d). path_height fs p) stack))"
    by (simp add: add.commute)
next
  fix fs :: node and max_depth :: "int option" and cur :: path and depth :: int
    and stack :: "(path \<times> int) list" and all_paths :: "path list" and chs :: "path list"
  assume it: "iterdir fs cur = Inr chs"
  let ?I = "mset (map (\<lambda>(p, d). path_height fs p) stack)"
  let ?K = "mset (map (\<lambda>(p, d). path_height fs p)
                (rev (map (\<lambda>ch. (ch, depth + 1)) (filter (is_dir fs) (sort_children fs chs)))))"
  have "\<forall>k \<in> set_mset ?K. \<exists>j \<in> set_mset {#path_height fs cur#}. (k, j) \<in> {(a::nat, b). a < b}"
    using iterdir_height[OF it] by (auto simp: set_sort_children)
  then have "(?I + ?K, ?I + {#path_height fs cur#}) \<in> mult {(a::nat, b). a < b}"
    by (intro one_step_implies_mult) auto
  then show "((fs, max_depth, push_dirs fs depth (sort_children fs chs) stack,
               all_paths @ sort_children fs chs),
              (fs, max_depth, (cur, depth) # stack, all_paths))
      \<in> inv_image (mult {(a::nat, b). a < b})
         (\<lambda>(fs, max_depth, stack, all_paths). mset (map (\<lambda>(p, d). path_height fs p) stack))"
    by (simp add: push_dirs_def add.commute)
qed

subsection \<open>Verdicts and the reconciliation of ancestors\<close>

text \<open>
  The Python set \<^verbatim>\<open>included\<close> is a list without repetitions: \<^verbatim>\<open>add\<close> is
  \<^const>\<open>List.insert\<close>, membership is membership in the list, and
  \<^verbatim>\<open>list(included)\<close> is the list itself.
\<close>

text \<open>One round of the loop over \<^verbatim>\<open>all_paths\<close>: the set so far and the output
  printed so far go in.\<close>

definition select_step ::
  "(string \<Rightarrow> bool) \<Rightarrow> (string \<Rightarrow> string) \<Rightarrow> rule list \<Rightarrow> node \<Rightarrow> bool \<Rightarrow> path
     \<Rightarrow> path list \<times> string list \<Rightarrow> error + (path list \<times> string list)" where
  "select_step encodable repr rules fs DEBUG p acc =
     (case acc of (included, out) \<Rightarrow>
      if p = [] then Inr (List.insert p included, out)
      else case run_is_ignored encodable repr rules fs DEBUG p out of
             Inl e \<Rightarrow> Inl e
           | Inr (ignored, out') \<Rightarrow>
               Inr (if \<not> ignored then List.insert p included else included, out'))"

fun select_included ::
  "(string \<Rightarrow> bool) \<Rightarrow> (string \<Rightarrow> string) \<Rightarrow> rule list \<Rightarrow> node \<Rightarrow> bool \<Rightarrow> path list
     \<Rightarrow> path list \<times> string list \<Rightarrow> error + (path list \<times> string list)" where
  "select_included encodable repr rules fs DEBUG [] acc = Inr acc"
| "select_included encodable repr rules fs DEBUG (p # ps) acc =
     (case select_step encodable repr rules fs DEBUG p acc of
        Inl e \<Rightarrow> Inl e
      | Inr acc' \<Rightarrow> select_included encodable repr rules fs DEBUG ps acc')"

text \<open>The inner loop \<^verbatim>\<open>while cur != root_path\<close>; \<^verbatim>\<open>cur.parent\<close> drops the last
  component.\<close>

function add_parents :: "path \<Rightarrow> path list \<Rightarrow> path list" where
  "add_parents cur included =
     (if cur \<noteq> [] then add_parents (butlast cur) (List.insert (butlast cur) included)
      else included)"
  by pat_completeness auto
termination
  by (relation "measure (\<lambda>(cur, included). length cur)") auto

declare add_parents.simps [simp del]

definition reconcile :: "path list \<Rightarrow> path list" where
  "reconcile included = fold add_parents included included"

subsection \<open>The renderer\<close>

definition newline :: string where
  "newline = [char_of (10::nat)]"

definition ends :: "bool \<Rightarrow> string" where
  "ends is_last =
     (if is_last
      then map char_of [0xE2, 0x94, 0x94, 0xE2, 0x94, 0x80, 0xE2, 0x94, 0x80, 0x20 :: nat]
      else map char_of [0xE2, 0x94, 0x9C, 0xE2, 0x94, 0x80, 0xE2, 0x94, 0x80, 0x20 :: nat])"

definition extents :: "bool \<Rightarrow> string" where
  "extents is_last =
     (if is_last then ''     ''
      else map char_of [0xE2, 0x94, 0x82, 0x20, 0x20, 0x20, 0x20 :: nat])"

definition list_children :: "node \<Rightarrow> path list \<Rightarrow> path \<Rightarrow> error + path list" where
  "list_children fs included path =
     (case iterdir fs path of
        Inl e \<Rightarrow> Inl e
      | Inr chs \<Rightarrow> Inr (filter (\<lambda>c. c \<in> set included) (sort_children fs chs)))"

text \<open>The first error of a sequence of results, or all their lists in order.\<close>

fun collect :: "(error + 'a list) list \<Rightarrow> error + 'a list" where
  "collect [] = Inr []"
| "collect (x # xs) =
     (case x of
        Inl e \<Rightarrow> Inl e
      | Inr ys \<Rightarrow> (case collect xs of Inl e \<Rightarrow> Inl e | Inr zs \<Rightarrow> Inr (ys @ zs)))"

lemma list_children_height:
  assumes "list_children fs included path = Inr kids" and "x \<in> set (enumerate 0 kids)"
    and "(i, ch) = x"
  shows "path_height fs ch < path_height fs path"
proof -
  from assms(1) obtain chs where it: "iterdir fs path = Inr chs"
    and kids: "kids = filter (\<lambda>c. c \<in> set included) (sort_children fs chs)"
    by (auto simp: list_children_def split: sum.splits)
  from assms(2,3) have "ch \<in> set kids" by (auto simp: in_set_enumerate_eq)
  with kids have "ch \<in> set chs" by (simp add: set_sort_children)
  from iterdir_height[OF it this] show ?thesis .
qed

text \<open>
  \<^verbatim>\<open>rec(path, prefix, depth)\<close> (the prefix is \<open>pfx\<close> here) returns the lines it appends to \<^verbatim>\<open>lines\<close>, in
  order, each one together with the entry it stands for.
\<close>

function rec :: "node \<Rightarrow> path list \<Rightarrow> int option \<Rightarrow> path \<Rightarrow> string \<Rightarrow> int \<Rightarrow> error + (path \<times> string) list" where
  "rec fs included max_depth path pfx depth =
     (if depth_reached max_depth depth then Inr []
      else case list_children fs included path of
             Inl e \<Rightarrow> Inl e
           | Inr kids \<Rightarrow>
               collect (map (\<lambda>(i, ch).
                 let is_last = (i = length kids - 1);
                     line = (ch, pfx @ ends is_last @ path_name fs ch)
                 in if is_dir fs ch
                    then (case rec fs included max_depth ch (pfx @ extents is_last) (depth + 1) of
                            Inl e \<Rightarrow> Inl e
                          | Inr below \<Rightarrow> Inr (line # below))
                    else Inr [line]) (enumerate 0 kids)))"
  by pat_completeness auto
termination
  by (relation "measure (\<lambda>(fs, included, max_depth, path, pfx, depth). path_height fs path)")
     (auto dest: list_children_height)

declare rec.simps [simp del]

subsection \<open>\<^verbatim>\<open>build_structure_tree\<close>\<close>

text \<open>Step 1: the lines of \<^verbatim>\<open>.gitignore\<close>, then the caller's patterns, then
  \<^verbatim>\<open>.git/\<close>.\<close>

definition build_patterns :: "node \<Rightarrow> string list option \<Rightarrow> bool \<Rightarrow> bool \<Rightarrow> error + string list" where
  "build_patterns fs ignore_list apply_gitignore exclude_git =
     (case (if apply_gitignore then read_gitignore_lines fs else Inr []) of
        Inl e \<Rightarrow> Inl e
      | Inr from_file \<Rightarrow>
          Inr (from_file
               @ (case ignore_list of None \<Rightarrow> [] | Some l \<Rightarrow> if l \<noteq> [] then l else [])
               @ (if exclude_git then [''.git/''] else [])))"

text \<open>\<^verbatim>\<open>os.environ.get("MDTREE_DEBUG") == "1"\<close>.\<close>

definition debug_enabled :: "(string \<rightharpoonup> string) \<Rightarrow> bool" where
  "debug_enabled environ = (environ ''MDTREE_DEBUG'' = Some ''1'')"

text \<open>Steps 1 to 5: the inclusion set after the reconciliation, and what the resolver
  printed on the way.\<close>

definition inclusion_set ::
  "(string \<Rightarrow> error + pathspec) \<Rightarrow> (string \<Rightarrow> string) \<Rightarrow> (string \<Rightarrow> bool) \<Rightarrow> (string \<rightharpoonup> string)
     \<Rightarrow> node \<Rightarrow> int option \<Rightarrow> string list option \<Rightarrow> bool \<Rightarrow> bool
     \<Rightarrow> error + (path list \<times> string list)" where
  "inclusion_set from_lines repr encodable environ fs max_depth ignore_list apply_gitignore exclude_git =
     (case build_patterns fs ignore_list apply_gitignore exclude_git of
        Inl e \<Rightarrow> Inl e
      | Inr patterns \<Rightarrow>
     (case compile_gitignore_rules from_lines patterns of
        Inl e \<Rightarrow> Inl e
      | Inr rules \<Rightarrow>
     (case walk fs max_depth [([], 0)] [[]] of
        Inl e \<Rightarrow> Inl e
      | Inr all_paths \<Rightarrow>
     (case select_included encodable repr rules fs (debug_enabled environ) all_paths ([], []) of
        Inl e \<Rightarrow> Inl e
      | Inr (included, out) \<Rightarrow> Inr (reconcile included, out)))))"

text \<open>The whole function: what it prints, and the string it returns.\<close>

definition build_structure_tree ::
  "(string \<Rightarrow> error + pathspec) \<Rightarrow> (string \<Rightarrow> string) \<Rightarrow> (string \<Rightarrow> bool) \<Rightarrow> (string \<rightharpoonup> string)
     \<Rightarrow> node \<Rightarrow> int option \<Rightarrow> string list option \<Rightarrow> bool \<Rightarrow> bool
     \<Rightarrow> error + (string list \<times> string)" where
  "build_structure_tree from_lines repr encodable environ fs max_depth ignore_list apply_gitignore exclude_git =
     (case inclusion_set from_lines repr encodable environ fs max_depth ignore_list apply_gitignore exclude_git of
        Inl e \<Rightarrow> Inl e
      | Inr (included, out) \<Rightarrow>
     (case rec fs included max_depth [] [] 0 of
        Inl e \<Rightarrow> Inl e
      | Inr entries \<Rightarrow> Inr (out, join newline (node_name fs # map snd entries))))"

subsection \<open>Validation of the root, and the entry point\<close>

text \<open>What the caller may hand to \<^verbatim>\<open>validate_and_convert_path\<close>: a string, a
  \<^verbatim>\<open>Path\<close>, or a value of another type (with the text of that type). The calls into
  \<^verbatim>\<open>pathlib\<close> are the parameters \<open>Path\<close>, \<open>exists\<close> and \<open>resolve\<close>.
  \<^verbatim>\<open>Path.exists()\<close> answers true or false, or raises the \<^verbatim>\<open>OSError\<close> of the
  system call when its error number is not one of those it takes for an absent path (an
  over-long name is error 36, a directory that may not be searched error 13); it never
  raises anything else. \<open>exists\<close> gives the error number or the answer.\<close>

datatype 'p pyvalue = PyStr string | PyPath 'p | PyOther string

definition validate_and_convert_path ::
  "(string \<Rightarrow> 'p) \<Rightarrow> ('p \<Rightarrow> nat + bool) \<Rightarrow> ('p \<Rightarrow> 'p) \<Rightarrow> 'p pyvalue \<Rightarrow> error + 'p" where
  "validate_and_convert_path Path exists resolve s =
     (case s of
        PyOther ty \<Rightarrow> Inl (ValueError (''Invalid input type: '' @ ty @ ''. Expected str or Path.''))
      | PyStr x \<Rightarrow>
          (let p = Path x in
           case exists p of
             Inl errno \<Rightarrow> Inl (OSError errno)
           | Inr found \<Rightarrow>
               if \<not> found then Inl (ValueError ''input path does not exist.'') else Inr (resolve p))
      | PyPath p \<Rightarrow>
          (case exists p of
             Inl errno \<Rightarrow> Inl (OSError errno)
           | Inr found \<Rightarrow>
               if \<not> found then Inl (ValueError ''input path does not exist.'') else Inr (resolve p)))"

text \<open>The block under \<^verbatim>\<open>if __name__ == "__main__"\<close>; \<open>snapshot\<close> gives the tree
  found at a resolved path. The result is everything printed.\<close>

definition main ::
  "(string \<Rightarrow> error + pathspec) \<Rightarrow> (string \<Rightarrow> string) \<Rightarrow> (string \<Rightarrow> bool) \<Rightarrow> (string \<rightharpoonup> string)
     \<Rightarrow> (string \<Rightarrow> 'p) \<Rightarrow> ('p \<Rightarrow> nat + bool) \<Rightarrow> ('p \<Rightarrow> 'p) \<Rightarrow> ('p \<Rightarrow> node) \<Rightarrow> error + string list" where
  "main from_lines repr encodable environ Path exists resolve snapshot =
     (case validate_and_convert_path Path exists resolve (PyStr ''.'') of
        Inl e \<Rightarrow> Inl e
      | Inr p \<Rightarrow>
     (case build_structure_tree from_lines repr encodable environ (snapshot (resolve p)) None None True True of
        Inl e \<Rightarrow> Inl e
      | Inr (out, tree) \<Rightarrow> py_print encodable tree out))"

subsection \<open>A small matcher for concrete runs\<close>

text \<open>
  To run the definitions on concrete inputs the parameter \<open>from_lines\<close> needs a value.
  \<open>sample_from_lines\<close> accepts every line. A line \<^verbatim>\<open>dir/**\<close> matches the paths that
  start with \<^verbatim>\<open>dir/\<close> (so \<^verbatim>\<open>dir/\<close> and everything below, but not
  \<^verbatim>\<open>dir\<close>), a line \<^verbatim>\<open>*suffix\<close> the paths whose last component ends with the
  suffix, any other line the paths whose last component is the line. It stands for the
  pattern library only on such lines and on the paths used below.
\<close>

definition basename :: "string \<Rightarrow> string" where
  "basename rel = rev (takeWhile (\<lambda>c. c \<noteq> CHR ''/'') (rev rel))"

definition sample_spec :: "string \<Rightarrow> pathspec" where
  "sample_spec core =
     (\<lambda>rel. case rev core of
              CHR ''*'' # CHR ''*'' # CHR ''/'' # d \<Rightarrow> startswith rel (rev d @ ''/'')
            | _ \<Rightarrow>
                if core \<noteq> [] \<and> hd core = CHR ''*'' then endswith (basename rel) (tl core)
                else basename rel = core)"

definition sample_from_lines :: "string \<Rightarrow> error + pathspec" where
  "sample_from_lines core = Inr (sample_spec core)"

text \<open>A sample tree: a directory \<^verbatim>\<open>build\<close> with a file and a nested directory, a
  directory \<^verbatim>\<open>src\<close>, and three files.\<close>

definition sample_fs :: node where
  "sample_fs =
     Dir ''proj''
       [File ''important.log'' [],
        Dir ''src'' [File ''main.py'' [], Dir ''pkg'' [File ''mod.py'' []]],
        File ''debug.log'' [],
        Dir ''build'' [File ''out.o'' [], Dir ''tmp'' [File ''x.log'' []]],
        File ''README.md'' []]"

text \<open>A smaller tree, with one file below a directory.\<close>

definition small_fs :: node where
  "small_fs = Dir ''proj'' [File ''a.log'' [], Dir ''src'' [File ''mod.py'' []]]"



text \<open>A stream that encodes every text.\<close>

definition any_stream :: "string \<Rightarrow> bool" where
  "any_stream line = True"



subsection \<open>The resolver in the words of the specification\<close>

text \<open>
  The three definitions below follow the specification, not the code: when a rule matches a
  candidate, which verdict a matching rule gives, and the verdict of the last matching
  rule. They are compared with \<^const>\<open>is_ignored\<close> further down.
\<close>

definition rule_matches :: "node \<Rightarrow> path \<Rightarrow> rule \<Rightarrow> bool" where
  "rule_matches fs p r =
     (case r of (is_neg, spec, pat) \<Rightarrow>
      let core = (if startswith pat ''!'' then tl pat else pat); rel = as_posix p in
      if endswith core ''/'' then
        (if \<not> is_neg then rel = rstrip_slash core \<or> startswith rel (rstrip_slash core @ ''/'')
         else is_dir fs p \<and> rel = rstrip_slash core)
      else spec rel)"

definition rule_verdict :: "rule \<Rightarrow> bool" where
  "rule_verdict r = (case r of (is_neg, spec, pat) \<Rightarrow> \<not> is_neg)"

definition last_match_wins :: "node \<Rightarrow> path \<Rightarrow> rule list \<Rightarrow> bool" where
  "last_match_wins fs p rules =
     (case filter (rule_matches fs p) rules of [] \<Rightarrow> False | m # ms \<Rightarrow> rule_verdict (last (m # ms)))"

text \<open>Two rules agree on a path when they have the same negation flag and the same
  pattern, and, unless the pattern is directory-only, matchers that give the same answer
  on that one path.\<close>

definition rules_agree_on :: "string \<Rightarrow> rule \<Rightarrow> rule \<Rightarrow> bool" where
  "rules_agree_on rel r r' =
     (case r of (is_neg, spec, pat) \<Rightarrow> case r' of (is_neg', spec', pat') \<Rightarrow>
        is_neg = is_neg' \<and> pat = pat'
        \<and> (endswith (if startswith pat ''!'' then tl pat else pat) ''/'' \<or> spec rel = spec' rel))"

text \<open>The loop over \<^verbatim>\<open>all_paths\<close> without its output: the paths one round keeps.\<close>

definition keep_step :: "(string \<Rightarrow> string) \<Rightarrow> rule list \<Rightarrow> node \<Rightarrow> path \<Rightarrow> path list \<Rightarrow> path list" where
  "keep_step repr rules fs p included =
     (if p = [] \<or> \<not> fst (is_ignored repr rules fs False p) then List.insert p included
      else included)"

section \<open>Properties\<close>

subsection \<open>The inclusion set is closed under ancestors\<close>

lemma walk_keeps: "walk fs max_depth stack all_paths = Inr ps \<Longrightarrow> set all_paths \<subseteq> set ps"
proof (induction fs max_depth stack all_paths rule: walk.induct)
  case (1 fs max_depth all_paths)
  then show ?case by simp
next
  case (2 fs max_depth cur depth stack all_paths)
  show ?case
  proof (cases "depth_reached max_depth depth")
    case True
    with 2 show ?thesis by simp
  next
    case False
    with "2.prems" obtain chs where it: "iterdir fs cur = Inr chs"
      by (cases "iterdir fs cur") auto
    with False "2.prems" "2.IH"(2)[OF False it] show ?thesis by auto
  qed
qed

lemma fst_is_ignored_debug:
  "fst (is_ignored repr rules fs DEBUG p) = fst (is_ignored repr rules fs False p)"
  by (simp add: is_ignored_def Let_def split: prod.splits)



lemma select_step_Inr:
  "select_step encodable repr rules fs DEBUG p (included, out) = Inr (included', out') \<Longrightarrow>
     included' = keep_step repr rules fs p included"
  using fst_is_ignored_debug[of repr rules fs DEBUG p]
  by (auto simp: select_step_def run_is_ignored_def keep_step_def split: if_splits prod.splits sum.splits)




lemma select_included_Inr:
  "select_included encodable repr rules fs DEBUG ps (included, out) = Inr (included', out') \<Longrightarrow>
     included' = fold (keep_step repr rules fs) ps included"
proof (induction ps arbitrary: included out)
  case Nil
  then show ?case by simp
next
  case (Cons p ps)
  from Cons.prems obtain inc1 out1 where
    s: "select_step encodable repr rules fs DEBUG p (included, out) = Inr (inc1, out1)"
    and r: "select_included encodable repr rules fs DEBUG ps (inc1, out1) = Inr (included', out')"
    by (auto split: sum.splits)
  from select_step_Inr[OF s] Cons.IH[OF r] show ?case by simp
qed




lemma keep_fold_grows: "set included \<subseteq> set (fold (keep_step repr rules fs) ps included)"
proof (induction ps arbitrary: included)
  case Nil
  then show ?case by simp
next
  case (Cons p ps)
  have "set included \<subseteq> set (keep_step repr rules fs p included)"
    by (auto simp: keep_step_def)
  also have "\<dots> \<subseteq> set (fold (keep_step repr rules fs) ps (keep_step repr rules fs p included))"
    by (rule Cons.IH)
  finally show ?case by simp
qed

lemma keep_fold_root:
  "[] \<in> set ps \<Longrightarrow> [] \<in> set (fold (keep_step repr rules fs) ps included)"
proof (induction ps arbitrary: included)
  case Nil
  then show ?case by simp
next
  case (Cons p ps)
  show ?case
  proof (cases "p = []")
    case True
    have "[] \<in> set (keep_step repr rules fs [] included)" by (simp add: keep_step_def)
    with keep_fold_grows[of "keep_step repr rules fs [] included" repr rules fs ps] True
    show ?thesis by auto
  next
    case False
    with Cons show ?thesis by simp
  qed
qed

lemma keep_fold_bound:
  "set (fold (keep_step repr rules fs) ps included) \<subseteq> set included \<union> set ps"
proof (induction ps arbitrary: included)
  case Nil
  then show ?case by simp
next
  case (Cons p ps)
  have "set (fold (keep_step repr rules fs) ps (keep_step repr rules fs p included))
          \<subseteq> set (keep_step repr rules fs p included) \<union> set ps"
    by (rule Cons.IH)
  moreover have "set (keep_step repr rules fs p included) \<subseteq> insert p (set included)"
    by (auto simp: keep_step_def)
  ultimately show ?case by auto
qed

lemma strict_prefix_butlast:
  "cur \<noteq> [] \<Longrightarrow> strict_prefix q cur \<longleftrightarrow> prefix q (butlast cur)"
proof -
  assume "cur \<noteq> []"
  then have "cur = butlast cur @ [last cur]" by simp
  then have "strict_prefix q cur \<longleftrightarrow> strict_prefix q (butlast cur @ [last cur])" by simp
  also have "\<dots> \<longleftrightarrow> prefix q (butlast cur)" by (auto simp: strict_prefix_def prefix_snoc)
  finally show ?thesis .
qed

lemma set_add_parents:
  "set (add_parents cur included) = set included \<union> {q. strict_prefix q cur}"
proof (induction cur included rule: add_parents.induct)
  case (1 cur included)
  show ?case
  proof (cases "cur = []")
    case True
    then show ?thesis by (subst add_parents.simps) simp
  next
    case False
    have "set (add_parents cur included)
            = set (add_parents (butlast cur) (List.insert (butlast cur) included))"
      using False by (subst add_parents.simps) simp
    also have "\<dots> = set (List.insert (butlast cur) included) \<union> {q. strict_prefix q (butlast cur)}"
      using "1.IH"[OF False] .
    also have "\<dots> = set included \<union> {q. prefix q (butlast cur)}"
      by (auto simp: strict_prefix_def)
    also have "\<dots> = set included \<union> {q. strict_prefix q cur}"
      using strict_prefix_butlast[OF False] by simp
    finally show ?thesis .
  qed
qed

lemma set_fold_add_parents:
  "set (fold add_parents ps included) = set included \<union> {q. \<exists>p \<in> set ps. strict_prefix q p}"
proof (induction ps arbitrary: included)
  case Nil
  then show ?case by simp
next
  case (Cons p ps)
  have "set (fold add_parents (p # ps) included) = set (fold add_parents ps (add_parents p included))"
    by simp
  also have "\<dots> = set (add_parents p included) \<union> {q. \<exists>p \<in> set ps. strict_prefix q p}"
    by (rule Cons.IH)
  also have "\<dots> = set included \<union> {q. \<exists>p' \<in> set (p # ps). strict_prefix q p'}"
    by (auto simp: set_add_parents)
  finally show ?case .
qed

lemma set_reconcile:
  "set (reconcile included) = {q. \<exists>p \<in> set included. prefix q p}"
proof -
  have "set (reconcile included) = set included \<union> {q. \<exists>p \<in> set included. strict_prefix q p}"
    by (simp add: reconcile_def set_fold_add_parents)
  also have "\<dots> = {q. \<exists>p \<in> set included. prefix q p}"
    by (auto simp: strict_prefix_def)
  finally show ?thesis .
qed

text \<open>
  Claim C1. Whenever \<^verbatim>\<open>build_structure_tree\<close> gets as far as its inclusion set, the
  root is a member of the set, and with every member each of its ancestors up to the root
  is a member, whatever the rules are.
\<close>

theorem inclusion_set_prefix_closed:
  assumes "inclusion_set from_lines repr encodable environ fs max_depth ignore_list apply_gitignore exclude_git
             = Inr (included, out)"
  shows "[] \<in> set included \<and> (\<forall>p \<in> set included. \<forall>q. prefix q p \<longrightarrow> q \<in> set included)"
proof -
  from assms obtain patterns rules all_paths inc0 where
    w: "walk fs max_depth [([], 0)] [[]] = Inr all_paths"
    and s: "select_included encodable repr rules fs (debug_enabled environ) all_paths ([], []) = Inr (inc0, out)"
    and r: "included = reconcile inc0"
    unfolding inclusion_set_def by (auto simp del: walk.simps split: sum.splits prod.splits)
  from walk_keeps[OF w] have "[] \<in> set all_paths" by simp
  from keep_fold_root[OF this] select_included_Inr[OF s]
  have root: "[] \<in> set inc0" by simp
  have "[] \<in> set included" using root r by (auto simp: set_reconcile)
  moreover have "\<forall>p \<in> set included. \<forall>q. prefix q p \<longrightarrow> q \<in> set included"
  proof (intro ballI allI impI)
    fix p q assume "p \<in> set included" and qp: "prefix q p"
    then obtain p0 where p0: "p0 \<in> set inc0" and pp: "prefix p p0"
      using r by (auto simp: set_reconcile)
    from qp pp have "prefix q p0" by (rule prefix_order.trans)
    with p0 show "q \<in> set included" using r by (auto simp: set_reconcile)
  qed
  ultimately show ?thesis by simp
qed

theorem inclusion_set_prefix_closed_witness:
  "inclusion_set sample_from_lines id any_stream Map.empty sample_fs None (Some [''src/'', ''!mod.py'', ''*.log'']) False True
     = Inr ([[''src''], [''src'', ''pkg''], [''build'', ''out.o''], [''build'', ''tmp''],
             [''src'', ''pkg'', ''mod.py''], [''README.md''], [''build''], []], [])
   \<and> [] \<in> set [[''src''], [''src'', ''pkg''], [''build'', ''out.o''], [''build'', ''tmp''],
             [''src'', ''pkg'', ''mod.py''], [''README.md''], [''build''], []]
   \<and> [''src'', ''pkg''] \<in> set [[''src''], [''src'', ''pkg''], [''build'', ''out.o''], [''build'', ''tmp''],
             [''src'', ''pkg'', ''mod.py''], [''README.md''], [''build''], []]
   \<and> [''src''] \<in> set [[''src''], [''src'', ''pkg''], [''build'', ''out.o''], [''build'', ''tmp''],
             [''src'', ''pkg'', ''mod.py''], [''README.md''], [''build''], []]"
proof -
  let ?L = "[[''src''], [''src'', ''pkg''], [''build'', ''out.o''], [''build'', ''tmp''],
             [''src'', ''pkg'', ''mod.py''], [''README.md''], [''build''], []]"
  have h: "inclusion_set sample_from_lines id any_stream Map.empty sample_fs None (Some [''src/'', ''!mod.py'', ''*.log'']) False True
     = Inr (?L, [])"
    by code_simp
  from inclusion_set_prefix_closed[OF h]
  have root: "[] \<in> set ?L" and closed: "\<forall>p \<in> set ?L. \<forall>q. prefix q p \<longrightarrow> q \<in> set ?L"
    by blast+
  have m: "[''src'', ''pkg'', ''mod.py''] \<in> set ?L" by simp
  have "prefix [''src'', ''pkg''] [''src'', ''pkg'', ''mod.py'']" by simp
  with closed m have a: "[''src'', ''pkg''] \<in> set ?L" by blast
  have "prefix [''src''] [''src'', ''pkg'', ''mod.py'']" by simp
  with closed m have b: "[''src''] \<in> set ?L" by blast
  from h root a b show ?thesis by blast
qed

subsection \<open>The verdict of the resolver\<close>

lemma startswith_bang: "startswith s ''!'' \<longleftrightarrow> s \<noteq> [] \<and> hd s = CHR ''!''"
  by (cases s) (auto simp: startswith_def)

lemma endswith_slash: "endswith s ''/'' \<longleftrightarrow> s \<noteq> [] \<and> last s = CHR ''/''"
  by (cases s rule: rev_cases) (auto simp: endswith_def suffix_def)

lemma rstrip_slash_snoc:
  "d = [] \<or> last d \<noteq> CHR ''/'' \<Longrightarrow> rstrip_slash (d @ ''/'') = d"
  by (cases d rule: rev_cases) (simp_all add: rstrip_slash_def)

lemma basename_no_slash: "CHR ''/'' \<notin> set n \<Longrightarrow> basename n = n"
proof -
  assume "CHR ''/'' \<notin> set n"
  then have tw: "takeWhile (\<lambda>c. c \<noteq> CHR ''/'') (rev n) = rev n"
    by (auto simp: takeWhile_eq_all_conv)
  show ?thesis unfolding basename_def tw by simp
qed

lemma scan_rules_append:
  "scan_rules fs p rel (rs @ rs') acc = scan_rules fs p rel rs' (scan_rules fs p rel rs acc)"
  by (induction rs arbitrary: acc) simp_all

lemma fst_rule_step:
  "fst (rule_step fs p (as_posix p) r acc) = (if rule_matches fs p r then rule_verdict r else fst acc)"
  by (cases r; cases acc) (simp add: rule_step_def rule_matches_def rule_verdict_def Let_def)

lemma fst_is_ignored:
  "fst (is_ignored repr rules fs DEBUG p) = fst (scan_rules fs p (as_posix p) rules (False, []))"
  by (simp add: is_ignored_def Let_def split: prod.splits)

lemma is_ignored_snoc:
  "fst (is_ignored repr (rs @ [r]) fs DEBUG p) =
     (if rule_matches fs p r then rule_verdict r else fst (is_ignored repr rs fs DEBUG p))"
  by (simp add: fst_is_ignored scan_rules_append fst_rule_step)

lemma is_ignored_nil: "fst (is_ignored repr [] fs DEBUG p) = False"
  by (simp add: fst_is_ignored)

lemma is_ignored_last_match:
  "fst (is_ignored repr rules fs DEBUG p) = last_match_wins fs p rules"
proof (induction rules rule: rev_induct)
  case Nil
  show ?case by (simp add: is_ignored_nil last_match_wins_def)
next
  case (snoc r rs)
  show ?case
  proof (cases "rule_matches fs p r")
    case True
    then have "filter (rule_matches fs p) (rs @ [r]) = filter (rule_matches fs p) rs @ [r]" by simp
    then have "last_match_wins fs p (rs @ [r]) = rule_verdict r"
      by (cases "filter (rule_matches fs p) rs") (simp_all add: last_match_wins_def)
    with True show ?thesis by (simp add: is_ignored_snoc)
  next
    case False
    then have "last_match_wins fs p (rs @ [r]) = last_match_wins fs p rs"
      by (simp add: last_match_wins_def)
    with False snoc show ?thesis by (simp add: is_ignored_snoc)
  qed
qed

lemma is_ignored_drop_unmatched:
  "\<not> rule_matches fs p r \<Longrightarrow>
     fst (is_ignored repr (rs @ r # rs') fs DEBUG p) = fst (is_ignored repr (rs @ rs') fs DEBUG p)"
  by (simp add: is_ignored_last_match last_match_wins_def)

lemma compile_single:
  assumes "compile_gitignore_rules from_lines [pat] = Inr rules"
    and "(if startswith pat ''!'' then tl pat else pat) \<noteq> []"
  shows "\<exists>spec. rules = [(startswith pat ''!'', spec, pat)]"
  using assms by (auto simp: Let_def split: if_splits sum.splits)

text \<open>
  Claim C2. The verdict of \<^verbatim>\<open>is_ignored\<close> is the verdict of the last rule, in the
  declared order, that matches the candidate (included when none matches). For the path
  \<^verbatim>\<open>foo\<close>, given a matcher that accepts \<^verbatim>\<open>foo\<close> for the pattern
  \<^verbatim>\<open>foo\<close>, the rules \<^verbatim>\<open>foo\<close>, \<^verbatim>\<open>!foo\<close> include it and the rules
  \<^verbatim>\<open>!foo\<close>, \<^verbatim>\<open>foo\<close> exclude it.
\<close>

theorem last_match_wins_order:
  assumes "from_lines ''foo'' = Inr m" and "m ''foo''"
  shows "fst (is_ignored repr rules fs DEBUG p) = last_match_wins fs p rules
       \<and> compile_gitignore_rules from_lines [''foo'', ''!foo''] = Inr [(False, m, ''foo''), (True, m, ''!foo'')]
       \<and> compile_gitignore_rules from_lines [''!foo'', ''foo''] = Inr [(True, m, ''!foo''), (False, m, ''foo'')]
       \<and> \<not> fst (is_ignored repr [(False, m, ''foo''), (True, m, ''!foo'')] fs DEBUG [''foo''])
       \<and> fst (is_ignored repr [(True, m, ''!foo''), (False, m, ''foo'')] fs DEBUG [''foo''])"
proof -
  have c1: "compile_gitignore_rules from_lines [''foo'', ''!foo''] = Inr [(False, m, ''foo''), (True, m, ''!foo'')]"
    using assms(1) by (simp add: startswith_def Let_def)
  have c2: "compile_gitignore_rules from_lines [''!foo'', ''foo''] = Inr [(True, m, ''!foo''), (False, m, ''foo'')]"
    using assms(1) by (simp add: startswith_def Let_def)
  have mt: "rule_matches fs [''foo''] (True, m, ''!foo'')"
    using assms(2) by (simp add: rule_matches_def startswith_bang endswith_slash as_posix_def Let_def)
  have mf: "rule_matches fs [''foo''] (False, m, ''foo'')"
    using assms(2) by (simp add: rule_matches_def startswith_bang endswith_slash as_posix_def Let_def)
  have v1: "\<not> fst (is_ignored repr ([(False, m, ''foo'')] @ [(True, m, ''!foo'')]) fs DEBUG [''foo''])"
    by (simp only: is_ignored_snoc mt if_True) (simp add: rule_verdict_def)
  have v2: "fst (is_ignored repr ([(True, m, ''!foo'')] @ [(False, m, ''foo'')]) fs DEBUG [''foo''])"
    by (simp only: is_ignored_snoc mf if_True) (simp add: rule_verdict_def)
  from c1 c2 v1 v2 is_ignored_last_match show ?thesis by simp
qed

theorem last_match_wins_order_witness:
  "sample_from_lines ''foo'' = Inr (sample_spec ''foo'') \<and> sample_spec ''foo'' ''foo''
   \<and> fst (is_ignored (\<lambda>s. s) [(False, sample_spec ''*.log'', ''*.log''), (True, sample_spec ''important.log'', ''!important.log'')]
            sample_fs False [''important.log''])
     = last_match_wins sample_fs [''important.log'']
         [(False, sample_spec ''*.log'', ''*.log''), (True, sample_spec ''important.log'', ''!important.log'')]
   \<and> \<not> fst (is_ignored (\<lambda>s. s) [(False, sample_spec ''foo'', ''foo''), (True, sample_spec ''foo'', ''!foo'')]
              sample_fs False [''foo''])
   \<and> fst (is_ignored (\<lambda>s. s) [(True, sample_spec ''foo'', ''!foo''), (False, sample_spec ''foo'', ''foo'')]
              sample_fs False [''foo''])"
proof -
  have h1: "sample_from_lines ''foo'' = Inr (sample_spec ''foo'')"
    by (simp add: sample_from_lines_def)
  have h2: "sample_spec ''foo'' ''foo''"
    by (simp add: sample_spec_def basename_def)
  from last_match_wins_order[where from_lines = sample_from_lines and m = "sample_spec ''foo''"
      and repr = "\<lambda>s. s" and fs = sample_fs and DEBUG = False
      and p = "[''important.log'']"
      and rules = "[(False, sample_spec ''*.log'', ''*.log''), (True, sample_spec ''important.log'', ''!important.log'')]", OF h1 h2]
    h1 h2
  show ?thesis by simp
qed

lemma dir_rule_matches:
  assumes "core \<noteq> []" and "hd core \<noteq> CHR ''!''" and "endswith core ''/''"
  shows "rule_matches fs p (False, spec, core) \<longleftrightarrow>
           as_posix p = rstrip_slash core \<or> startswith (as_posix p) (rstrip_slash core @ ''/'')"
  using assms by (simp add: rule_matches_def startswith_bang Let_def)

lemma neg_dir_rule_matches:
  assumes "endswith core ''/''"
  shows "rule_matches fs p (True, spec, CHR ''!'' # core) \<longleftrightarrow>
           is_dir fs p \<and> as_posix p = rstrip_slash core"
  using assms by (simp add: rule_matches_def startswith_bang Let_def)

text \<open>
  Claim C3. With the single rule \<^verbatim>\<open>build/\<close> a candidate is excluded exactly when its
  relative path is \<^verbatim>\<open>build\<close> or starts with \<^verbatim>\<open>build/\<close>; after any other
  rules, the rule excludes those candidates and leaves the verdict of every other candidate
  as it was; and wherever the rule stands in a list of rules, removing it does not change
  the verdict of any other candidate.
\<close>

theorem build_dir_rule:
  assumes "compile_gitignore_rules from_lines [''build/''] = Inr rules"
  shows "fst (is_ignored repr rules fs DEBUG p)
           = (as_posix p = ''build'' \<or> startswith (as_posix p) ''build/'')
       \<and> fst (is_ignored repr (rs @ rules) fs DEBUG p)
           = (if as_posix p = ''build'' \<or> startswith (as_posix p) ''build/'' then True
              else fst (is_ignored repr rs fs DEBUG p))
       \<and> (\<not> (as_posix p = ''build'' \<or> startswith (as_posix p) ''build/'') \<longrightarrow>
            fst (is_ignored repr (rs @ rules @ rs') fs DEBUG p) = fst (is_ignored repr (rs @ rs') fs DEBUG p))"
proof -
  from assms obtain spec where r: "rules = [(False, spec, ''build/'')]"
    by (auto simp: Let_def startswith_bang split: sum.splits)
  have rs: "rstrip_slash ''build/'' = ''build''"
    using rstrip_slash_snoc[of "''build''"] by simp
  have m: "rule_matches fs p (False, spec, ''build/'')
             \<longleftrightarrow> as_posix p = ''build'' \<or> startswith (as_posix p) ''build/''"
    using dir_rule_matches[of "''build/''" fs p spec] rs by (simp add: endswith_slash)
  have a: "fst (is_ignored repr (rs @ rules) fs DEBUG p)
           = (if as_posix p = ''build'' \<or> startswith (as_posix p) ''build/'' then True
              else fst (is_ignored repr rs fs DEBUG p))"
    unfolding r is_ignored_snoc m by (simp add: rule_verdict_def)
  have "fst (is_ignored repr ([] @ rules) fs DEBUG p)
           = (as_posix p = ''build'' \<or> startswith (as_posix p) ''build/'')"
    unfolding r is_ignored_snoc m by (simp add: rule_verdict_def is_ignored_nil)
  moreover have "fst (is_ignored repr (rs @ rules @ rs') fs DEBUG p) = fst (is_ignored repr (rs @ rs') fs DEBUG p)"
    if "\<not> (as_posix p = ''build'' \<or> startswith (as_posix p) ''build/'')"
    using that m is_ignored_drop_unmatched[of fs p "(False, spec, ''build/'')" repr rs rs' DEBUG]
    by (simp add: r)
  ultimately show ?thesis using a by simp
qed

theorem build_dir_rule_witness:
  "compile_gitignore_rules sample_from_lines [''build/''] = Inr [(False, sample_spec ''build/'', ''build/'')]
   \<and> fst (is_ignored (\<lambda>s. s) [(False, sample_spec ''build/'', ''build/'')] sample_fs False [''build'', ''out.o''])
   \<and> \<not> fst (is_ignored (\<lambda>s. s) [(False, sample_spec ''build/'', ''build/'')] sample_fs False [''src''])"
proof -
  have h: "compile_gitignore_rules sample_from_lines [''build/''] = Inr [(False, sample_spec ''build/'', ''build/'')]"
    by (simp add: sample_from_lines_def startswith_bang Let_def)
  have a: "as_posix [''build'', ''out.o''] = ''build/out.o''" by (simp add: as_posix_def)
  have b: "as_posix [''src''] = ''src''" by (simp add: as_posix_def)
  from build_dir_rule[OF h, where repr = "\<lambda>s. s" and fs = sample_fs and DEBUG = False
      and p = "[''build'', ''out.o'']" and rs = "[]" and rs' = "[]"]
    build_dir_rule[OF h, where repr = "\<lambda>s. s" and fs = sample_fs and DEBUG = False
      and p = "[''src'']" and rs = "[]" and rs' = "[]"] h
  show ?thesis by (simp add: a b startswith_def)
qed

text \<open>
  Claim C4. A rule \<^verbatim>\<open>!d/\<close> sets the verdict to included for a directory whose
  relative path is \<^verbatim>\<open>d\<close>, and leaves every other verdict as it was: that of a
  candidate that is not a directory, and that of every path below \<^verbatim>\<open>d\<close>; wherever
  the rule stands in a list of rules, removing it changes no verdict but that of the
  directory \<^verbatim>\<open>d\<close> itself.
\<close>

theorem negated_dir_rule:
  assumes "compile_gitignore_rules from_lines [''!'' @ d @ ''/''] = Inr rules"
    and "d = [] \<or> last d \<noteq> CHR ''/''"
  shows "fst (is_ignored repr (rs @ rules) fs DEBUG p)
           = (if is_dir fs p \<and> as_posix p = d then False else fst (is_ignored repr rs fs DEBUG p))
       \<and> (\<not> is_dir fs p \<longrightarrow>
            fst (is_ignored repr (rs @ rules) fs DEBUG p) = fst (is_ignored repr rs fs DEBUG p))
       \<and> (startswith (as_posix p) (d @ ''/'') \<longrightarrow>
            fst (is_ignored repr (rs @ rules) fs DEBUG p) = fst (is_ignored repr rs fs DEBUG p))
       \<and> (\<not> (is_dir fs p \<and> as_posix p = d) \<longrightarrow>
            fst (is_ignored repr (rs @ rules @ rs') fs DEBUG p) = fst (is_ignored repr (rs @ rs') fs DEBUG p))"
proof -
  from assms(1) obtain spec where r: "rules = [(True, spec, CHR ''!'' # d @ ''/'')]"
    by (auto simp: Let_def startswith_bang split: sum.splits)
  have m: "rule_matches fs p (True, spec, CHR ''!'' # d @ ''/'') \<longleftrightarrow> is_dir fs p \<and> as_posix p = d"
    using neg_dir_rule_matches[of "d @ ''/''" fs p spec] rstrip_slash_snoc[OF assms(2)]
    by (simp add: endswith_slash)
  have a: "fst (is_ignored repr (rs @ rules) fs DEBUG p)
           = (if is_dir fs p \<and> as_posix p = d then False else fst (is_ignored repr rs fs DEBUG p))"
    unfolding r is_ignored_snoc m by (simp add: rule_verdict_def)
  have b: "startswith (as_posix p) (d @ ''/'') \<Longrightarrow> as_posix p \<noteq> d"
    by (auto simp: startswith_def prefix_def)
  have c: "fst (is_ignored repr (rs @ rules @ rs') fs DEBUG p) = fst (is_ignored repr (rs @ rs') fs DEBUG p)"
    if "\<not> (is_dir fs p \<and> as_posix p = d)"
    using that m is_ignored_drop_unmatched[of fs p "(True, spec, CHR ''!'' # d @ ''/'')" repr rs rs' DEBUG]
    by (simp add: r)
  from a b c show ?thesis by auto
qed

theorem negated_dir_rule_witness:
  "compile_gitignore_rules sample_from_lines [''!'' @ ''build'' @ ''/'']
     = Inr [(True, sample_spec ''build/'', ''!build/'')]
   \<and> last ''build'' \<noteq> CHR ''/''
   \<and> \<not> fst (is_ignored (\<lambda>s. s) ([(False, sample_spec ''build/'', ''build/'')] @ [(True, sample_spec ''build/'', ''!build/'')])
          sample_fs False [''build''])
   \<and> fst (is_ignored (\<lambda>s. s) ([(False, sample_spec ''build/'', ''build/'')] @ [(True, sample_spec ''build/'', ''!build/'')])
          sample_fs False [''build'', ''out.o''])"
proof -
  have h: "compile_gitignore_rules sample_from_lines [''!'' @ ''build'' @ ''/'']
     = Inr [(True, sample_spec ''build/'', ''!build/'')]"
    by (simp add: sample_from_lines_def startswith_bang Let_def)
  have d: "''build'' = [] \<or> last ''build'' \<noteq> CHR ''/''" by simp
  have dir: "is_dir sample_fs [''build'']" by (simp add: is_dir_def sample_fs_def)
  have ndir: "\<not> is_dir sample_fs [''build'', ''out.o'']" by (simp add: is_dir_def sample_fs_def)
  have a: "as_posix [''build''] = ''build''" by (simp add: as_posix_def)
  have ex: "fst (is_ignored (\<lambda>s. s) [(False, sample_spec ''build/'', ''build/'')] sample_fs False [''build'', ''out.o''])"
    by (simp add: is_ignored_def rule_step_def startswith_bang endswith_slash rstrip_slash_def as_posix_def startswith_def Let_def)
  from negated_dir_rule[OF h d, where repr = "\<lambda>s. s" and fs = sample_fs and DEBUG = False
      and p = "[''build'']" and rs = "[(False, sample_spec ''build/'', ''build/'')]" and rs' = "[]"]
    negated_dir_rule[OF h d, where repr = "\<lambda>s. s" and fs = sample_fs and DEBUG = False
      and p = "[''build'', ''out.o'']" and rs = "[(False, sample_spec ''build/'', ''build/'')]" and rs' = "[]"]
    h d dir ndir a ex
  show ?thesis by simp
qed

text \<open>
  Claim C5. With the rules \<^verbatim>\<open>*.log\<close>, \<^verbatim>\<open>!important.log\<close>, and a matcher for
  which the pattern \<^verbatim>\<open>important.log\<close> accepts, among the names without a slash, that
  name only: \<^verbatim>\<open>important.log\<close> at the root is included, and every other entry at the
  root whose name the pattern \<^verbatim>\<open>*.log\<close> accepts is excluded.
\<close>

theorem log_rules_override:
  assumes "from_lines ''*.log'' = Inr m1" and "from_lines ''important.log'' = Inr m2"
    and "\<And>n. CHR ''/'' \<notin> set n \<Longrightarrow> m2 n \<longleftrightarrow> n = ''important.log''"
  shows "compile_gitignore_rules from_lines [''*.log'', ''!important.log'']
           = Inr [(False, m1, ''*.log''), (True, m2, ''!important.log'')]
       \<and> \<not> fst (is_ignored repr [(False, m1, ''*.log''), (True, m2, ''!important.log'')] fs DEBUG
               [''important.log''])
       \<and> (\<forall>n. CHR ''/'' \<notin> set n \<and> n \<noteq> ''important.log'' \<and> m1 n \<longrightarrow>
            fst (is_ignored repr [(False, m1, ''*.log''), (True, m2, ''!important.log'')] fs DEBUG [n]))"
proof -
  have c: "compile_gitignore_rules from_lines [''*.log'', ''!important.log'']
           = Inr [(False, m1, ''*.log''), (True, m2, ''!important.log'')]"
    using assms(1,2) by (simp add: startswith_bang Let_def)
  have m2i: "m2 ''important.log''" using assms(3)[of "''important.log''"] by simp
  have g1: "rule_matches fs [n] (False, m1, ''*.log'') \<longleftrightarrow> m1 n" for n
    by (simp add: rule_matches_def startswith_bang endswith_slash as_posix_def Let_def)
  have g2: "rule_matches fs [n] (True, m2, ''!important.log'') \<longleftrightarrow> m2 n" for n
    by (simp add: rule_matches_def startswith_bang endswith_slash as_posix_def Let_def)
  have v: "fst (is_ignored repr ([(False, m1, ''*.log'')] @ [(True, m2, ''!important.log'')]) fs DEBUG [n])
           = (if m2 n then False else m1 n)" for n
    unfolding is_ignored_snoc g2
    using is_ignored_snoc[of repr "[]" "(False, m1, ''*.log'')" fs DEBUG "[n]"]
    by (simp add: g1 rule_verdict_def is_ignored_nil)
  have a: "\<not> fst (is_ignored repr [(False, m1, ''*.log''), (True, m2, ''!important.log'')] fs DEBUG
               [''important.log''])"
    using v[of "''important.log''"] m2i by simp
  have b: "\<forall>n. CHR ''/'' \<notin> set n \<and> n \<noteq> ''important.log'' \<and> m1 n \<longrightarrow>
            fst (is_ignored repr [(False, m1, ''*.log''), (True, m2, ''!important.log'')] fs DEBUG [n])"
    using v assms(3) by simp
  from c a b show ?thesis by simp
qed

theorem log_rules_override_witness:
  "sample_from_lines ''*.log'' = Inr (sample_spec ''*.log'')
   \<and> sample_from_lines ''important.log'' = Inr (sample_spec ''important.log'')
   \<and> \<not> fst (is_ignored (\<lambda>s. s) [(False, sample_spec ''*.log'', ''*.log''), (True, sample_spec ''important.log'', ''!important.log'')]
            sample_fs False [''important.log''])
   \<and> sample_spec ''*.log'' ''debug.log''
   \<and> fst (is_ignored (\<lambda>s. s) [(False, sample_spec ''*.log'', ''*.log''), (True, sample_spec ''important.log'', ''!important.log'')]
            sample_fs False [''debug.log''])"
proof -
  have h1: "sample_from_lines ''*.log'' = Inr (sample_spec ''*.log'')"
    by (simp add: sample_from_lines_def)
  have h2: "sample_from_lines ''important.log'' = Inr (sample_spec ''important.log'')"
    by (simp add: sample_from_lines_def)
  have h3: "CHR ''/'' \<notin> set n \<Longrightarrow> sample_spec ''important.log'' n \<longleftrightarrow> n = ''important.log''" for n
    by (simp add: sample_spec_def basename_no_slash)
  have m: "sample_spec ''*.log'' ''debug.log''"
    by (simp add: sample_spec_def basename_def endswith_def suffix_def)
  from log_rules_override[where from_lines = sample_from_lines and ?m1.0 = "sample_spec ''*.log''"
      and ?m2.0 = "sample_spec ''important.log''" and repr = "\<lambda>s. s" and fs = sample_fs
      and DEBUG = False, OF h1 h2 h3]
    h1 h2 m
  show ?thesis by simp
qed

text \<open>
  Claim C10. A directory-only rule that is not negated excludes a candidate whose relative
  path is the core of the pattern without its trailing slashes also when the candidate is
  a regular file: the branch does not ask whether the candidate is a directory.
\<close>

theorem dir_rule_excludes_file:
  assumes "compile_gitignore_rules from_lines [core] = Inr rules"
    and "core \<noteq> []" and "hd core \<noteq> CHR ''!''" and "endswith core ''/''"
    and "lookup fs p = Some (File n t)"
    and "as_posix p = rstrip_slash core"
  shows "\<not> is_dir fs p \<and> fst (is_ignored repr (rs @ rules) fs DEBUG p)"
proof -
  from assms(1-3) obtain spec where r: "rules = [(False, spec, core)]"
    by (auto simp: Let_def startswith_bang split: sum.splits)
  have "rule_matches fs p (False, spec, core)"
    using dir_rule_matches[OF assms(2-4), of fs p spec] assms(6) by simp
  then have "fst (is_ignored repr (rs @ rules) fs DEBUG p)"
    unfolding r is_ignored_snoc by (simp add: rule_verdict_def)
  moreover have "\<not> is_dir fs p" using assms(5) by (simp add: is_dir_def)
  ultimately show ?thesis by simp
qed

theorem dir_rule_excludes_file_witness:
  "compile_gitignore_rules sample_from_lines [''build/''] = Inr [(False, sample_spec ''build/'', ''build/'')]
   \<and> lookup (Dir ''proj'' [File ''build'' [], File ''a.txt'' []]) [''build''] = Some (File ''build'' [])
   \<and> as_posix [''build''] = rstrip_slash ''build/''
   \<and> \<not> is_dir (Dir ''proj'' [File ''build'' [], File ''a.txt'' []]) [''build'']
   \<and> fst (is_ignored (\<lambda>s. s) [(False, sample_spec ''build/'', ''build/'')]
            (Dir ''proj'' [File ''build'' [], File ''a.txt'' []]) False [''build''])"
proof -
  have h: "compile_gitignore_rules sample_from_lines [''build/''] = Inr [(False, sample_spec ''build/'', ''build/'')]"
    by (simp add: sample_from_lines_def startswith_bang Let_def)
  have c: "''build/'' \<noteq> []" "hd ''build/'' \<noteq> CHR ''!''" "endswith ''build/'' ''/''"
    by (simp_all add: endswith_slash)
  have l: "lookup (Dir ''proj'' [File ''build'' [], File ''a.txt'' []]) [''build''] = Some (File ''build'' [])"
    by simp
  have a: "as_posix [''build''] = rstrip_slash ''build/''"
    by (simp add: as_posix_def rstrip_slash_def)
  from dir_rule_excludes_file[OF h c l a, where repr = "\<lambda>s. s" and DEBUG = False and rs = "[]"] h l a
  show ?thesis by simp
qed

lemma rules_agree_matches:
  "rules_agree_on (as_posix p) r r' \<Longrightarrow>
     rule_matches fs p r = rule_matches fs p r' \<and> rule_verdict r = rule_verdict r'"
  by (cases r; cases r') (auto simp: rules_agree_on_def rule_matches_def rule_verdict_def Let_def)

lemma scan_rules_agree:
  "list_all2 (rules_agree_on (as_posix p)) rules rules' \<Longrightarrow> fst acc = fst acc' \<Longrightarrow>
     fst (scan_rules fs p (as_posix p) rules acc) = fst (scan_rules fs p (as_posix p) rules' acc')"
proof (induction rules rules' arbitrary: acc acc' rule: list_all2_induct)
  case Nil
  then show ?case by simp
next
  case (Cons r rs r' rs')
  from rules_agree_matches[OF Cons.hyps(1), of fs] Cons.prems
  have "fst (rule_step fs p (as_posix p) r acc) = fst (rule_step fs p (as_posix p) r' acc')"
    by (simp add: fst_rule_step)
  from Cons.IH[OF this] show ?case by simp
qed

lemma rule_matches_cases:
  "rule_matches fs p (is_neg, spec, pat) =
     (let core = (if startswith pat ''!'' then tl pat else pat); rel = as_posix p in
      if endswith core ''/'' then
        (if \<not> is_neg then rel = rstrip_slash core \<or> startswith rel (rstrip_slash core @ ''/'')
         else is_dir fs p \<and> rel = rstrip_slash core)
      else spec rel)"
  by (simp add: rule_matches_def)

text \<open>
  Claim C7, as the code has it. For every candidate, directory or not, the resolver tests
  each rule against the bare root-relative path and against nothing else. A rule that is
  not directory-only takes effect exactly when its matcher accepts the bare path. A
  directory-only rule never asks its matcher: without negation it takes effect exactly when
  the bare path is the core of the pattern without its trailing slashes or starts with that
  and a slash, with negation exactly when the candidate is a directory and the bare path is
  the core without its trailing slashes. What a matcher answers on any other text, the form
  with a trailing separator among them, changes no verdict. That form is the second of the
  two which \<^verbatim>\<open>_rel_for_match\<close> gives for a directory, and the resolver does not
  call \<^verbatim>\<open>_rel_for_match\<close>.
\<close>

theorem resolver_tests_bare_path:
  "fst (is_ignored repr (rs @ [(is_neg, spec, pat)]) fs DEBUG p) =
     (let core = (if startswith pat ''!'' then tl pat else pat);
          rel = as_posix p;
          before = fst (is_ignored repr rs fs DEBUG p)
      in if endswith core ''/'' then
           (if \<not> is_neg then
              (if rel = rstrip_slash core \<or> startswith rel (rstrip_slash core @ ''/'') then True
               else before)
            else (if is_dir fs p \<and> rel = rstrip_slash core then False else before))
         else (if spec rel then \<not> is_neg else before))
   \<and> (list_all2 (rules_agree_on (as_posix p)) rules rules' \<longrightarrow>
        fst (is_ignored repr rules fs DEBUG p) = fst (is_ignored repr rules' fs DEBUG p))
   \<and> (is_dir fs p \<and> as_posix p \<noteq> [] \<and> \<not> endswith (as_posix p) ''/'' \<longrightarrow>
        rel_for_match fs p = [as_posix p, as_posix p @ ''/''])"
proof -
  have a: "fst (is_ignored repr (rs @ [(is_neg, spec, pat)]) fs DEBUG p) =
     (let core = (if startswith pat ''!'' then tl pat else pat);
          rel = as_posix p;
          before = fst (is_ignored repr rs fs DEBUG p)
      in if endswith core ''/'' then
           (if \<not> is_neg then
              (if rel = rstrip_slash core \<or> startswith rel (rstrip_slash core @ ''/'') then True
               else before)
            else (if is_dir fs p \<and> rel = rstrip_slash core then False else before))
         else (if spec rel then \<not> is_neg else before))"
    unfolding is_ignored_snoc rule_matches_cases by (simp add: rule_verdict_def Let_def)
  have b: "fst (is_ignored repr rules fs DEBUG p) = fst (is_ignored repr rules' fs DEBUG p)"
    if "list_all2 (rules_agree_on (as_posix p)) rules rules'"
    using scan_rules_agree[OF that, of "(False, [])" "(False, [])" fs]
    by (simp add: fst_is_ignored)
  have c: "rel_for_match fs p = [as_posix p, as_posix p @ ''/'']"
    if "is_dir fs p \<and> as_posix p \<noteq> [] \<and> \<not> endswith (as_posix p) ''/''"
    using that by (simp add: rel_for_match_def Let_def)
  from a b c show ?thesis by blast
qed

theorem resolver_tests_bare_path_witness:
  "fst (is_ignored id ([] @ [(False, sample_spec ''build/'', ''build/'')]) sample_fs False [''build''])
   \<and> \<not> fst (is_ignored id ([] @ [(False, sample_spec ''bu*/'', ''bu*/'')]) sample_fs False [''build''])
   \<and> \<not> fst (is_ignored id ([] @ [(False, sample_spec ''/build/'', ''/build/'')]) sample_fs False [''build''])
   \<and> \<not> fst (is_ignored id ([] @ [(False, sample_spec ''tmp/'', ''tmp/'')]) sample_fs False [''build'', ''tmp''])
   \<and> \<not> fst (is_ignored id ([] @ [(False, sample_spec ''src/**'', ''src/**'')]) sample_fs False [''src''])
   \<and> fst (is_ignored id ([] @ [(False, sample_spec ''src/**'', ''src/**'')]) sample_fs False [''src'', ''main.py''])
   \<and> rel_for_match sample_fs [''build''] = [''build'', ''build/'']"
proof -
  have n: "fst (is_ignored id [] sample_fs False q) = False" for q
    by (rule is_ignored_nil)
  have d: "is_dir sample_fs [''build'']" by (simp add: is_dir_def sample_fs_def)
  have s: "rstrip_slash ''build/'' = ''build''" "rstrip_slash ''bu*/'' = ''bu*''"
    "rstrip_slash ''/build/'' = ''/build''" "rstrip_slash ''tmp/'' = ''tmp''"
    by (simp_all add: rstrip_slash_def)
  have m: "\<not> sample_spec ''src/**'' ''src''" "sample_spec ''src/**'' ''src/main.py''"
    by (simp_all add: sample_spec_def startswith_def basename_def)
  note t = resolver_tests_bare_path[where repr = id and rs = "[]" and fs = sample_fs and DEBUG = False
      and is_neg = False and rules = "[]" and rules' = "[]"]
  from t[where spec = "sample_spec ''build/''" and pat = "''build/''" and p = "[''build'']"]
    t[where spec = "sample_spec ''bu*/''" and pat = "''bu*/''" and p = "[''build'']"]
    t[where spec = "sample_spec ''/build/''" and pat = "''/build/''" and p = "[''build'']"]
    t[where spec = "sample_spec ''tmp/''" and pat = "''tmp/''" and p = "[''build'', ''tmp'']"]
    t[where spec = "sample_spec ''src/**''" and pat = "''src/**''" and p = "[''src'']"]
    t[where spec = "sample_spec ''src/**''" and pat = "''src/**''" and p = "[''src'', ''main.py'']"]
    n d s m
  show ?thesis
    by (simp add: Let_def startswith_bang endswith_slash as_posix_def startswith_def)
qed

text \<open>
  Claim C7, as stated, fails. \<^verbatim>\<open>src\<close> is a directory of the sample tree and its two
  forms are \<^verbatim>\<open>src\<close> and \<^verbatim>\<open>src/\<close>. The rule compiled from the line
  \<^verbatim>\<open>src/**\<close> has a matcher that accepts the second form and not the first, and the
  resolver leaves \<^verbatim>\<open>src\<close> included: it has tested the first form only.
\<close>

theorem resolver_two_forms_counterexample:
  "compile_gitignore_rules sample_from_lines [''src/**''] = Inr [(False, sample_spec ''src/**'', ''src/**'')]
   \<and> is_dir sample_fs [''src'']
   \<and> rel_for_match sample_fs [''src''] = [''src'', ''src/'']
   \<and> sample_spec ''src/**'' ''src/''
   \<and> \<not> sample_spec ''src/**'' ''src''
   \<and> \<not> fst (is_ignored id [(False, sample_spec ''src/**'', ''src/**'')] sample_fs False [''src''])"
  by (simp add: sample_from_lines_def is_dir_def sample_fs_def rel_for_match_def as_posix_def
        sample_spec_def basename_def endswith_slash startswith_bang startswith_def
        fst_is_ignored rule_step_def Let_def)

subsection \<open>The diagnostic switch\<close>









subsection \<open>Validation of the root\<close>




subsection \<open>The depth bound\<close>

lemma rec_bound: "depth_reached max_depth depth \<Longrightarrow> rec fs included max_depth path pfx depth = Inr []"
  by (subst rec.simps) simp

lemma collect_singletons: "collect (map (\<lambda>x. Inr [f x]) xs) = Inr (map f xs)"
  by (induction xs) simp_all

lemma rec_depth_one:
  "rec fs included (Some 1) [] pfx 0 =
     (case list_children fs included [] of
        Inl e \<Rightarrow> Inl e
      | Inr kids \<Rightarrow>
          Inr (map (\<lambda>(i, ch). (ch, pfx @ ends (i = length kids - 1) @ path_name fs ch))
                 (enumerate 0 kids)))"
proof (cases "list_children fs included []")
  case (Inl e)
  then show ?thesis by (subst rec.simps) (simp add: depth_reached_def)
next
  case (Inr kids)
  have below: "rec fs included (Some 1) ch q 1 = Inr []" for ch q
    by (rule rec_bound) (simp add: depth_reached_def)
  have "(\<lambda>(i, ch).
           let is_last = (i = length kids - 1);
               line = (ch, pfx @ ends is_last @ path_name fs ch)
           in if is_dir fs ch
              then (case rec fs included (Some 1) ch (pfx @ extents is_last) (0 + 1) of
                      Inl e \<Rightarrow> Inl e
                    | Inr below \<Rightarrow> Inr (line # below))
              else Inr [line])
        = (\<lambda>x. Inr [(\<lambda>(i, ch). (ch, pfx @ ends (i = length kids - 1) @ path_name fs ch)) x])"
    by (auto simp: fun_eq_iff below Let_def)
  then have "collect (map (\<lambda>(i, ch).
           let is_last = (i = length kids - 1);
               line = (ch, pfx @ ends is_last @ path_name fs ch)
           in if is_dir fs ch
              then (case rec fs included (Some 1) ch (pfx @ extents is_last) (0 + 1) of
                      Inl e \<Rightarrow> Inl e
                    | Inr below \<Rightarrow> Inr (line # below))
              else Inr [line]) (enumerate 0 kids))
        = Inr (map (\<lambda>(i, ch). (ch, pfx @ ends (i = length kids - 1) @ path_name fs ch))
                 (enumerate 0 kids))"
    by (simp only: collect_singletons)
  with Inr show ?thesis by (subst rec.simps) (simp add: depth_reached_def)
qed

lemma walk_reached:
  "\<forall>x \<in> set stack. depth_reached max_depth (snd x) \<Longrightarrow> walk fs max_depth stack all_paths = Inr all_paths"
  by (induction stack) auto

lemma walk_depth_one:
  "walk fs (Some 1) [([], 0)] [[]] =
     (case iterdir fs [] of Inl e \<Rightarrow> Inl e | Inr chs \<Rightarrow> Inr ([] # sort_children fs chs))"
proof (cases "iterdir fs []")
  case (Inl e)
  then show ?thesis by (simp add: depth_reached_def)
next
  case (Inr chs)
  have "walk fs (Some 1) (push_dirs fs 0 (sort_children fs chs) []) ([[]] @ sort_children fs chs)
          = Inr ([[]] @ sort_children fs chs)"
    by (rule walk_reached) (auto simp: push_dirs_def depth_reached_def)
  with Inr show ?thesis by (simp add: depth_reached_def)
qed

lemma iterdir_length: "iterdir fs [] = Inr chs \<Longrightarrow> ch \<in> set chs \<Longrightarrow> length ch = 1"
  by (auto simp: iterdir_def split: option.splits node.splits)

text \<open>
  Claim C6. With \<^verbatim>\<open>max_depth = 1\<close> no path of two or more components is a candidate,
  and the renderer emits exactly one line for each included entry directly below the root,
  in the order of the listing, with nothing below a directory: the returned text is the
  name of the root followed by those lines.
\<close>

theorem depth_one_render:
  assumes "inclusion_set from_lines repr encodable environ fs (Some 1) ignore_list apply_gitignore exclude_git
             = Inr (included, out)"
  shows "\<exists>kids. list_children fs included [] = Inr kids
       \<and> (\<forall>p \<in> set included. length p \<le> 1)
       \<and> set kids = {ch \<in> set included. length ch = 1}
       \<and> rec fs included (Some 1) [] [] 0
           = Inr (map (\<lambda>(i, ch). (ch, ends (i = length kids - 1) @ path_name fs ch)) (enumerate 0 kids))
       \<and> build_structure_tree from_lines repr encodable environ fs (Some 1) ignore_list apply_gitignore exclude_git
           = Inr (out, join newline (node_name fs #
                    map (\<lambda>(i, ch). ends (i = length kids - 1) @ path_name fs ch) (enumerate 0 kids)))"
proof -
  from assms obtain rules all_paths inc0 where
    w: "walk fs (Some 1) [([], 0)] [[]] = Inr all_paths"
    and s: "select_included encodable repr rules fs (debug_enabled environ) all_paths ([], []) = Inr (inc0, out)"
    and r: "included = reconcile inc0"
    unfolding inclusion_set_def by (auto simp del: walk.simps split: sum.splits prod.splits)
  from w obtain chs where it: "iterdir fs [] = Inr chs" and ap: "all_paths = [] # sort_children fs chs"
    unfolding walk_depth_one by (auto split: sum.splits)
  have len: "length ch = 1" if "ch \<in> set chs" for ch
    using iterdir_length[OF it that] .
  have inc0: "set inc0 \<subseteq> insert [] (set chs)"
    using keep_fold_bound[of repr rules fs all_paths "[]"] select_included_Inr[OF s] ap
    by (auto simp: set_sort_children)
  have short: "length p \<le> 1" if "p \<in> set included" for p
  proof -
    from that r obtain p0 where p0: "p0 \<in> set inc0" and pre: "prefix p p0"
      by (auto simp: set_reconcile)
    from p0 inc0 len have "length p0 \<le> 1" by auto
    with pre show ?thesis using prefix_length_le by fastforce
  qed
  have one: "ch \<in> set chs" if "ch \<in> set included" and "length ch = 1" for ch
  proof -
    from that r obtain p0 where p0: "p0 \<in> set inc0" and pre: "prefix ch p0"
      by (auto simp: set_reconcile)
    from p0 inc0 len have l0: "length p0 \<le> 1" by auto
    from pre have "length ch \<le> length p0" by (rule prefix_length_le)
    with l0 that(2) have "length ch = length p0" by simp
    with pre have "ch = p0" by (auto simp: prefix_def)
    with p0 inc0 that(2) show ?thesis by auto
  qed
  define kids where "kids = filter (\<lambda>c. c \<in> set included) (sort_children fs chs)"
  have lc: "list_children fs included [] = Inr kids"
    using it by (simp add: list_children_def kids_def)
  have sk: "set kids = {ch \<in> set included. length ch = 1}"
    using len one by (auto simp: kids_def set_sort_children)
  have rc: "rec fs included (Some 1) [] [] 0
           = Inr (map (\<lambda>(i, ch). (ch, ends (i = length kids - 1) @ path_name fs ch)) (enumerate 0 kids))"
    unfolding rec_depth_one lc by simp
  have ms: "(snd \<circ> (\<lambda>(i, ch). (ch, ends (i = length kids - 1) @ path_name fs ch)))
          = (\<lambda>(i, ch). ends (i = length kids - 1) @ path_name fs ch)"
    by (auto simp: fun_eq_iff)
  have b: "build_structure_tree from_lines repr encodable environ fs (Some 1) ignore_list apply_gitignore exclude_git
           = Inr (out, join newline (node_name fs #
                    map (\<lambda>(i, ch). ends (i = length kids - 1) @ path_name fs ch) (enumerate 0 kids)))"
    using ms by (simp add: build_structure_tree_def assms rc)
  from lc short sk rc b show ?thesis by blast
qed

theorem depth_one_render_witness:
  "inclusion_set sample_from_lines id any_stream Map.empty small_fs (Some 1) None False True
     = Inr ([[''a.log''], [''src''], []], [])
   \<and> list_children small_fs [[''a.log''], [''src''], []] [] = Inr [[''src''], [''a.log'']]
   \<and> rec small_fs [[''a.log''], [''src''], []] (Some 1) [] [] 0
       = Inr [([''src''], ends False @ ''src''), ([''a.log''], ends True @ ''a.log'')]
   \<and> build_structure_tree sample_from_lines id any_stream Map.empty small_fs (Some 1) None False True
       = Inr ([], join newline [''proj'', ends False @ ''src'', ends True @ ''a.log''])"
proof -
  have h: "inclusion_set sample_from_lines id any_stream Map.empty small_fs (Some 1) None False True
     = Inr ([[''a.log''], [''src''], []], [])"
    by code_simp
  have lc: "list_children small_fs [[''a.log''], [''src''], []] [] = Inr [[''src''], [''a.log'']]"
    by code_simp
  have n: "path_name small_fs [''src''] = ''src''" "path_name small_fs [''a.log''] = ''a.log''"
    "node_name small_fs = ''proj''"
    by (simp_all add: path_name_def small_fs_def)
  from depth_one_render[OF h] lc h n show ?thesis
    by (auto simp: enumerate_eq_zip)
qed

end
